theory Spec2Isabelle
  imports
    Complex_Main
    "HOL-Library.Sublist"
    "HOL-Library.Char_ord"
    "HOL-Library.List_Lexorder"
    "HOL-Library.Multiset"
begin

section \<open>JavaScript values used by the catalog code\<close>

text \<open>
  Strings are \<^typ>\<open>string\<close>, lists of characters that stand for the code units of a
  JavaScript string. A value of TypeScript type \<open>string | null\<close> is a
  \<^typ>\<open>string option\<close>.
\<close>

text \<open>
  Failures are values. \<open>TypeError\<close>, \<open>SyntaxError\<close> and \<open>SystemError\<close> (a failed file
  read) are the exceptions that the modelled code can raise; \<open>MalformedInputError\<close> and
  \<open>EmptyCatalogError\<close> are the failures that the specification names.
\<close>

datatype error =
  TypeError | SyntaxError | SystemError | MalformedInputError | EmptyCatalogError

text \<open>
  \<open>String.prototype.toLowerCase\<close> belongs to the engine, not to the catalog code, and
  is taken as a parameter: a case mapping is any function on strings that maps the
  empty string, and no other, to the empty string. Nothing else is assumed of it, so
  every statement below holds for the engine's Unicode mapping.
\<close>

typedef case_mapping = "{f :: string \<Rightarrow> string. \<forall>s. (f s = []) = (s = [])}"
  morphisms toLowerCase Abs_case_mapping
  by (rule exI [of _ id]) simp

text \<open>
  The mapping on ASCII text, \<open>A\<close>..\<open>Z\<close> to \<open>a\<close>..\<open>z\<close>, on which every engine agrees; it
  serves to evaluate the examples, which are ASCII.
\<close>

definition toLowerChar :: "char \<Rightarrow> char" where
  "toLowerChar c =
     (case map_of (zip ''ABCDEFGHIJKLMNOPQRSTUVWXYZ'' ''abcdefghijklmnopqrstuvwxyz'') c of
        Some d \<Rightarrow> d
      | None \<Rightarrow> c)"

definition ascii_lower :: case_mapping where
  "ascii_lower = Abs_case_mapping (map toLowerChar)"

text \<open>\<open>s.includes(q)\<close>: \<open>q\<close> occurs in \<open>s\<close> as a contiguous run of characters.\<close>

fun js_includes :: "string \<Rightarrow> string \<Rightarrow> bool" where
  "js_includes [] q = (q = [])"
| "js_includes (c # cs) q = (prefix q (c # cs) \<or> js_includes cs q)"

text \<open>Truthiness of a \<open>string | null\<close> value: \<open>null\<close> and the empty string are falsy.\<close>

fun Boolean :: "string option \<Rightarrow> bool" where
  "Boolean None = False"
| "Boolean (Some s) = (s \<noteq> [])"

text \<open>\<open>Array.prototype.join\<close>: \<open>null\<close> elements are written as the empty string.\<close>

fun js_string :: "string option \<Rightarrow> string" where
  "js_string None = []"
| "js_string (Some s) = s"

fun join :: "string \<Rightarrow> string option list \<Rightarrow> string" where
  "join sep [] = []"
| "join sep [x] = js_string x"
| "join sep (x # y # ys) = js_string x @ sep @ join sep (y # ys)"

section \<open>The data model of \<open>lib/types.ts\<close>\<close>

text \<open>
  The flattened use case, field by field as \<open>UseCaseFlat\<close> declares it. \<open>tools\<close> and
  \<open>intents\<close> are arrays of that type, so the guards \<open>uc.tools || []\<close> and
  \<open>uc.intents?.includes\<close> of the code act on them as on plain arrays.
\<close>

record UseCaseFlat =
  title :: string
  one_liner :: "string option"
  description :: string
  tools :: "string list"
  category :: string
  audience :: string
  difficulty :: string
  timestamp_seconds :: "real option"
  intents :: "string list"
  is_pick :: bool
  pick_reason :: "string option"
  episode_id :: string
  episode_title :: string
  episode_url :: "string option"
  guest_name :: "string option"
  guest_role :: "string option"
  publish_date :: string

section \<open>Query evaluation\<close>

subsection \<open>\<open>HomeClient.tsx\<close>: \<open>filtered\<close>\<close>

text \<open>
  The search surface of one record: the fields are collected in an array, falsy entries
  are dropped by \<open>.filter(Boolean)\<close>, the rest is joined with one space and lowercased.
\<close>

definition searchable :: "case_mapping \<Rightarrow> UseCaseFlat \<Rightarrow> string" where
  "searchable lc uc =
     toLowerCase lc (join '' ''
       (filter Boolean
         ([Some (title uc), one_liner uc, Some (description uc), guest_name uc,
           Some (episode_title uc)] @ map Some (tools uc) @ [Some (category uc)])))"

text \<open>
  The callback of \<open>useCases.filter\<close>, with its three guarded early returns in the order
  of the source. \<open>selectedRole\<close> and \<open>selectedIntent\<close> are \<open>string | null\<close> state;
  \<open>uc.intents?.includes(x)\<close> is membership in the record's \<open>intents\<close>.
\<close>

definition HomeClient_keep ::
  "case_mapping \<Rightarrow> string \<Rightarrow> string option \<Rightarrow> string option \<Rightarrow> UseCaseFlat \<Rightarrow> bool" where
  "HomeClient_keep lc q selectedRole selectedIntent uc =
     (if Boolean selectedRole
         \<and> Some (audience uc) \<noteq> selectedRole \<and> audience uc \<noteq> ''everyone'' then False
      else if Boolean selectedIntent
         \<and> js_string selectedIntent \<notin> set (intents uc) then False
      else if q \<noteq> [] \<and> \<not> js_includes (searchable lc uc) q then False
      else True)"

definition HomeClient_filtered ::
  "case_mapping \<Rightarrow> UseCaseFlat list \<Rightarrow> string \<Rightarrow> string option \<Rightarrow> string option
     \<Rightarrow> UseCaseFlat list" where
  "HomeClient_filtered lc useCases search selectedRole selectedIntent =
     (let q = toLowerCase lc search
      in filter (HomeClient_keep lc q selectedRole selectedIntent) useCases)"

subsection \<open>\<open>UseCasesClient\<close>: \<open>filtered\<close>\<close>

text \<open>The use-case list view searches fewer fields and has two multi-value facets.\<close>

definition UseCasesClient_searchable :: "case_mapping \<Rightarrow> UseCaseFlat \<Rightarrow> string" where
  "UseCasesClient_searchable lc uc =
     toLowerCase lc (join '' ''
       (filter Boolean
         ([Some (title uc), Some (description uc), guest_name uc, Some (episode_title uc)]
          @ map Some (tools uc))))"

definition UseCasesClient_keep ::
  "case_mapping \<Rightarrow> string \<Rightarrow> string option \<Rightarrow> string list \<Rightarrow> string list \<Rightarrow> UseCaseFlat \<Rightarrow> bool" where
  "UseCasesClient_keep lc q selectedRole selectedCategories selectedDifficulties uc =
     (if q \<noteq> [] \<and> \<not> js_includes (UseCasesClient_searchable lc uc) q then False
      else if length selectedCategories > 0
         \<and> category uc \<notin> set selectedCategories then False
      else if length selectedDifficulties > 0
         \<and> difficulty uc \<notin> set selectedDifficulties then False
      else if Boolean selectedRole
         \<and> Some (audience uc) \<noteq> selectedRole \<and> audience uc \<noteq> ''everyone'' then False
      else True)"

definition UseCasesClient_filtered ::
  "case_mapping \<Rightarrow> UseCaseFlat list \<Rightarrow> string \<Rightarrow> string option \<Rightarrow> string list \<Rightarrow> string list
     \<Rightarrow> UseCaseFlat list" where
  "UseCasesClient_filtered lc useCases search selectedRole selectedCategories
       selectedDifficulties =
     (let q = toLowerCase lc search
      in filter (UseCasesClient_keep lc q selectedRole selectedCategories selectedDifficulties)
           useCases)"

subsection \<open>\<open>HomeClient.tsx\<close>: \<open>picks\<close> and \<open>filteredPicks\<close>\<close>

definition picks :: "UseCaseFlat list \<Rightarrow> UseCaseFlat list" where
  "picks useCases = filter is_pick useCases"

definition filteredPicks :: "UseCaseFlat list \<Rightarrow> UseCaseFlat list" where
  "filteredPicks filtered = filter is_pick filtered"

section \<open>Grouping by category\<close>

subsection \<open>A plain object used as a dictionary\<close>

text \<open>
  \<open>groups\<close> starts as the object literal \<open>{}\<close>. Its own properties are kept as an
  association list in creation order. A read \<open>groups[cat]\<close> of a key that is not an own
  property falls through to \<open>Object.prototype\<close>, whose property names (ECMA-262, 20.1.3
  and B.2.2) all hold functions or objects, hence truthy values without a \<open>push\<close> method.
\<close>

definition Object_prototype_keys :: "string list" where
  "Object_prototype_keys =
     [''constructor'', ''hasOwnProperty'', ''isPrototypeOf'', ''propertyIsEnumerable'',
      ''toLocaleString'', ''toString'', ''valueOf'', ''__proto__'',
      ''__defineGetter__'', ''__defineSetter__'', ''__lookupGetter__'', ''__lookupSetter__'']"

datatype 'a property = Own 'a | Inherited | Undefined

definition get_property :: "(string \<times> 'a) list \<Rightarrow> string \<Rightarrow> 'a property" where
  "get_property obj k =
     (case map_of obj k of
        Some v \<Rightarrow> Own v
      | None \<Rightarrow> if k \<in> set Object_prototype_keys then Inherited else Undefined)"

text \<open>
  \<open>Object.entries\<close> lists the own properties in the order of \<open>OrdinaryOwnPropertyKeys\<close>:
  the keys that are array indices (canonical decimal numerals below \<open>2^32 - 1\<close>) in
  ascending numeric order, then every other key in creation order.
\<close>

definition digit_value :: "char \<Rightarrow> nat option" where
  "digit_value c = map_of (zip ''0123456789'' [0, 1, 2, 3, 4, 5, 6, 7, 8, 9]) c"

fun numeric_value :: "nat \<Rightarrow> string \<Rightarrow> nat" where
  "numeric_value n [] = n"
| "numeric_value n (c # cs) =
     numeric_value (10 * n + (case digit_value c of Some d \<Rightarrow> d | None \<Rightarrow> 0)) cs"

definition isDigit :: "char \<Rightarrow> bool" where
  "isDigit c = (digit_value c \<noteq> None)"

definition is_array_index :: "string \<Rightarrow> bool" where
  "is_array_index k =
     (k \<noteq> [] \<and> list_all isDigit k
      \<and> (k = ''0'' \<or> take 1 k \<noteq> ''0'') \<and> numeric_value 0 k < 2 ^ 32 - 1)"

definition Object_entries :: "(string \<times> 'a) list \<Rightarrow> (string \<times> 'a) list" where
  "Object_entries obj =
     sort_key (\<lambda>e. numeric_value 0 (fst e)) (filter (\<lambda>e. is_array_index (fst e)) obj)
     @ filter (\<lambda>e. \<not> is_array_index (fst e)) obj"

subsection \<open>\<open>HomeClient.tsx\<close>: \<open>grouped\<close>\<close>

text \<open>\<open>uc.category || "other"\<close>\<close>

definition category_key :: "UseCaseFlat \<Rightarrow> string" where
  "category_key uc = (if category uc \<noteq> [] then category uc else ''other'')"

text \<open>
  One pass of the loop body. When \<open>groups[cat]\<close> is undefined the key is created with
  the one-element array; when it is an own array the record is pushed; when it is an
  inherited value the initialisation is skipped and the call of the missing \<open>push\<close>
  throws a \<open>TypeError\<close>.
\<close>

definition grouped_step ::
  "(string \<times> UseCaseFlat list) list \<Rightarrow> UseCaseFlat
     \<Rightarrow> error + (string \<times> UseCaseFlat list) list" where
  "grouped_step groups uc =
     (let cat = category_key uc
      in case get_property groups cat of
           Undefined \<Rightarrow> Inr (groups @ [(cat, [uc])])
         | Own members \<Rightarrow>
             Inr (map (\<lambda>(k, v). if k = cat then (k, v @ [uc]) else (k, v)) groups)
         | Inherited \<Rightarrow> Inl TypeError)"

fun grouped_loop ::
  "(string \<times> UseCaseFlat list) list \<Rightarrow> UseCaseFlat list
     \<Rightarrow> error + (string \<times> UseCaseFlat list) list" where
  "grouped_loop groups [] = Inr groups"
| "grouped_loop groups (uc # ucs) =
     (case grouped_step groups uc of
        Inl e \<Rightarrow> Inl e
      | Inr groups' \<Rightarrow> grouped_loop groups' ucs)"

text \<open>
  \<open>Array.prototype.sort\<close> is stable; the comparator \<open>b[1].length - a[1].length\<close> orders
  by descending member count, that is by ascending negated count.
\<close>

definition grouped :: "UseCaseFlat list \<Rightarrow> error + (string \<times> UseCaseFlat list) list" where
  "grouped filtered =
     (case grouped_loop [] filtered of
        Inl e \<Rightarrow> Inl e
      | Inr groups \<Rightarrow> Inr (sort_key (\<lambda>e. - int (length (snd e))) (Object_entries groups)))"

subsection \<open>\<open>HomeClient.tsx\<close>: the visible window of a group\<close>

definition CARDS_PER_CATEGORY :: nat where
  "CARDS_PER_CATEGORY = 6"

text \<open>\<open>xs.slice(0, n)\<close> for a count \<open>n\<close>\<close>

definition slice0 :: "'a list \<Rightarrow> nat \<Rightarrow> 'a list" where
  "slice0 xs n = take n xs"

definition visible :: "UseCaseFlat list \<Rightarrow> bool \<Rightarrow> UseCaseFlat list" where
  "visible categoryUseCases isExpanded =
     (let visibleCount = (if isExpanded then length categoryUseCases else CARDS_PER_CATEGORY)
      in slice0 categoryUseCases visibleCount)"

section \<open>\<open>HomeClient.tsx\<close>: \<open>handleSurpriseMe\<close>\<close>

text \<open>
  \<open>random\<close> stands for the value of \<open>Math.random()\<close>, a number in \<open>[0, 1)\<close>. An array read
  past the end yields \<open>undefined\<close>, here \<^const>\<open>None\<close>; no statement of the handler throws.
  The result is the value handed to \<open>setSurpriseUseCase\<close>.
\<close>

definition array_get :: "'a list \<Rightarrow> nat \<Rightarrow> 'a option" where
  "array_get xs i = (if i < length xs then Some (xs ! i) else None)"

definition handleSurpriseMe ::
  "UseCaseFlat list \<Rightarrow> UseCaseFlat list \<Rightarrow> real \<Rightarrow> error + UseCaseFlat option" where
  "handleSurpriseMe filtered useCases random =
     (let pool = (if length filtered > 0 then filtered else useCases);
          random' = array_get pool (nat \<lfloor>random * real (length pool)\<rfloor>)
      in Inr random')"

section \<open>Facet values (\<open>lib/data.ts\<close>)\<close>

text \<open>
  The nested use case and the episode of \<open>lib/types.ts\<close>. Field names shared with
  \<^typ>\<open>UseCaseFlat\<close> carry a prefix. An optional field that may also be \<open>null\<close> is one
  \<^typ>\<open>'a option\<close>.
\<close>

record UseCase =
  uc_title :: string
  uc_one_liner :: "string option"
  uc_description :: string
  uc_tools :: "string list"
  uc_category :: string
  uc_audience :: string
  uc_difficulty :: string
  uc_timestamp_seconds :: "real option"
  uc_intents :: "string list option"
  uc_is_pick :: "bool option"
  uc_pick_reason :: "string option"

record EpisodeAnalysis =
  ea_guest_name :: "string option"
  ea_guest_role :: "string option"
  summary :: "string option"
  key_takeaways :: "string list"
  use_cases :: "UseCase list"
  tools_mentioned :: "string list"
  notable_quotes :: "string list"

record Episode =
  ep_id :: string
  ep_title :: string
  ep_description :: string
  ep_publish_date :: string
  duration_seconds :: real
  thumbnail_url :: string
  url :: string
  transcript :: "string option"
  analysis :: "EpisodeAnalysis option"

text \<open>
  A \<open>Set<string>\<close> keeps its elements in insertion order, without repetition;
  \<open>Array.from(s).sort()\<close> sorts the strings by their character codes.
\<close>

definition Set_add :: "string list \<Rightarrow> string \<Rightarrow> string list" where
  "Set_add s x = (if x \<in> set s then s else s @ [x])"

definition getAllTools :: "Episode list \<Rightarrow> string list" where
  "getAllTools episodes =
     sort (foldl (\<lambda>tools ep.
                    case analysis ep of
                      None \<Rightarrow> tools
                    | Some a \<Rightarrow> foldl (\<lambda>tools t. Set_add tools t) tools (tools_mentioned a))
                 [] episodes)"

definition getAllCategories :: "UseCaseFlat list \<Rightarrow> string list" where
  "getAllCategories useCases =
     sort (foldl (\<lambda>cats uc. if category uc \<noteq> [] then Set_add cats (category uc) else cats)
                 [] useCases)"

definition getAllAudiences :: "UseCaseFlat list \<Rightarrow> string list" where
  "getAllAudiences useCases =
     sort (foldl (\<lambda>audiences uc.
                    if audience uc \<noteq> [] then Set_add audiences (audience uc) else audiences)
                 [] useCases)"

section \<open>Loading (\<open>lib/data.ts\<close>, \<open>app/page.tsx\<close>)\<close>

text \<open>
  The loaders return what \<open>JSON.parse\<close> yields, cast to the declared type, so the loaded
  value is a JSON document. The data directory maps a name to what is there:
  nothing (\<^const>\<open>None\<close>), an entry that exists but cannot be read (a directory of that
  name, a file without read permission, a file removed between the test and the read),
  or a text. A text is represented by what \<open>JSON.parse\<close> makes of it: \<^const>\<open>None\<close> for
  a text that is not JSON, the parsed value otherwise.
\<close>

datatype json =
    JNull
  | JBool bool
  | JNum real
  | JStr string
  | JArr "json list"
  | JObj "(string \<times> json) list"

datatype entry = Unreadable | Text "json option"

type_synonym data_dir = "string \<Rightarrow> entry option"

definition existsSync :: "data_dir \<Rightarrow> string \<Rightarrow> bool" where
  "existsSync data path = (data path \<noteq> None)"

text \<open>\<open>fs.readFileSync\<close> throws a system error for anything but a readable file.\<close>

definition readFileSync :: "data_dir \<Rightarrow> string \<Rightarrow> error + json option" where
  "readFileSync data path =
     (case data path of
        Some (Text raw) \<Rightarrow> Inr raw
      | Some Unreadable \<Rightarrow> Inl SystemError
      | None \<Rightarrow> Inl SystemError)"

text \<open>\<open>JSON.parse\<close> throws a \<open>SyntaxError\<close> for a text that is not JSON.\<close>

definition JSON_parse :: "json option \<Rightarrow> error + json" where
  "JSON_parse raw = (case raw of None \<Rightarrow> Inl SyntaxError | Some v \<Rightarrow> Inr v)"

definition getEpisodes :: "data_dir \<Rightarrow> error + json" where
  "getEpisodes data =
     (if \<not> existsSync data ''episodes-analyzed.json'' then
        (if \<not> existsSync data ''episodes.json'' then Inr (JArr [])
         else
           (case readFileSync data ''episodes.json'' of
              Inl e \<Rightarrow> Inl e
            | Inr raw \<Rightarrow> JSON_parse raw))
      else
        (case readFileSync data ''episodes-analyzed.json'' of
           Inl e \<Rightarrow> Inl e
         | Inr raw \<Rightarrow> JSON_parse raw))"

definition getUseCases :: "data_dir \<Rightarrow> error + json" where
  "getUseCases data =
     (if \<not> existsSync data ''use-cases.json'' then Inr (JArr [])
      else
        (case readFileSync data ''use-cases.json'' of
           Inl e \<Rightarrow> Inl e
         | Inr raw \<Rightarrow> JSON_parse raw))"

text \<open>The first two statements of the page component \<open>Home\<close>.\<close>

definition Home_load :: "data_dir \<Rightarrow> error + json \<times> json" where
  "Home_load data =
     (case getEpisodes data of
        Inl e \<Rightarrow> Inl e
      | Inr episodes \<Rightarrow>
          (case getUseCases data of
             Inl e \<Rightarrow> Inl e
           | Inr useCases \<Rightarrow> Inr (episodes, useCases)))"

section \<open>The criteria in the specification's words\<close>

text \<open>
  The specification's criteria, each with its own notion of being active: no selection
  (\<open>null\<close> or the empty string, an empty list of selected values, an empty term) means
  that the criterion constrains nothing.
\<close>

definition spec_passes_role :: "string option \<Rightarrow> UseCaseFlat \<Rightarrow> bool" where
  "spec_passes_role selected uc =
     (case selected of
        None \<Rightarrow> True
      | Some role \<Rightarrow> role = [] \<or> audience uc = role \<or> audience uc = ''everyone'')"

definition spec_passes_intent :: "string option \<Rightarrow> UseCaseFlat \<Rightarrow> bool" where
  "spec_passes_intent selected uc =
     (case selected of
        None \<Rightarrow> True
      | Some intent \<Rightarrow> intent = [] \<or> intent \<in> set (intents uc))"

text \<open>A multi-value facet: some selected value is among the record's values.\<close>

definition spec_passes_facet :: "string list \<Rightarrow> string list \<Rightarrow> bool" where
  "spec_passes_facet selected vals = (selected = [] \<or> (\<exists>v \<in> set selected. v \<in> set vals))"

text \<open>Free text, on an already lowercased term and search surface.\<close>

definition spec_passes_text :: "string \<Rightarrow> string \<Rightarrow> bool" where
  "spec_passes_text q surface = (q = [] \<or> sublist q surface)"

text \<open>
  The search surface in the specification's words: the non-empty values among the
  listed fields, joined by single spaces, in lowercase. A nullable field contributes
  its value when it has one.
\<close>

fun present :: "string option \<Rightarrow> string list" where
  "present None = []"
| "present (Some s) = [s]"

fun spec_spaced :: "string list \<Rightarrow> string" where
  "spec_spaced [] = []"
| "spec_spaced [x] = x"
| "spec_spaced (x # y # ys) = x @ '' '' @ spec_spaced (y # ys)"

definition spec_joined :: "string list \<Rightarrow> string" where
  "spec_joined vals = spec_spaced (filter (\<lambda>s. s \<noteq> []) vals)"

definition spec_surface :: "case_mapping \<Rightarrow> UseCaseFlat \<Rightarrow> string" where
  "spec_surface lc uc =
     toLowerCase lc
       (spec_joined
         (title uc # present (one_liner uc) @ description uc # present (guest_name uc)
          @ episode_title uc # tools uc @ [category uc]))"

text \<open>
  The specification's reading of the free-text criterion, the same for every view: the
  term is trimmed (\<open>String.prototype.trim\<close>, here on ASCII white space) and lowercased,
  and looked up in the surface of all seven fields.
\<close>

definition isWhiteSpace :: "char \<Rightarrow> bool" where
  "isWhiteSpace c = (c \<in> set [CHR '' '', CHR 0x09, CHR 0x0A, CHR 0x0B, CHR 0x0C, CHR 0x0D])"

definition trim :: "string \<Rightarrow> string" where
  "trim s = rev (dropWhile isWhiteSpace (rev (dropWhile isWhiteSpace s)))"

definition spec_passes_trimmed_text :: "case_mapping \<Rightarrow> string \<Rightarrow> UseCaseFlat \<Rightarrow> bool" where
  "spec_passes_trimmed_text lc search uc =
     (search = [] \<or> sublist (toLowerCase lc (trim search)) (spec_surface lc uc))"

section \<open>Well-formed containers in the specification's words\<close>

text \<open>
  The scalar fields that \<open>lib/types.ts\<close> requires of an \<open>Episode\<close>, and a container
  that has them all.
\<close>

definition Episode_required_scalars :: "string list" where
  "Episode_required_scalars =
     [''id'', ''title'', ''description'', ''publish_date'', ''duration_seconds'',
      ''thumbnail_url'', ''url'']"

fun spec_has_required_scalars :: "json \<Rightarrow> bool" where
  "spec_has_required_scalars (JObj props) =
     list_all (\<lambda>k. k \<in> set (map fst props)) Episode_required_scalars"
| "spec_has_required_scalars _ = False"

text \<open>
  The flattened record list of the specification has one record for each use case
  nested in a container: the number of records that the containers call for.
\<close>

fun json_field :: "json \<Rightarrow> string \<Rightarrow> json option" where
  "json_field (JObj props) k = map_of props k"
| "json_field _ k = None"

fun json_items :: "json \<Rightarrow> json list" where
  "json_items (JArr items) = items"
| "json_items _ = []"

definition spec_use_cases :: "json \<Rightarrow> json list" where
  "spec_use_cases container =
     (case json_field container ''analysis'' of
        None \<Rightarrow> []
      | Some a \<Rightarrow>
          (case json_field a ''use_cases'' of None \<Rightarrow> [] | Some ucs \<Rightarrow> json_items ucs))"

definition spec_flat_count :: "json \<Rightarrow> nat" where
  "spec_flat_count containers =
     sum_list (map (\<lambda>c. length (spec_use_cases c)) (json_items containers))"

section \<open>Grouping in the specification's words\<close>

text \<open>The position of the first record that has the key, among the records' keys.\<close>

definition first_occurrence :: "string list \<Rightarrow> string \<Rightarrow> nat" where
  "first_occurrence ks k = length (takeWhile (\<lambda>x. x \<noteq> k) ks)"

text \<open>
  The specification's tie-break: of two groups of equal size, the one whose category
  occurs first among the records comes first.
\<close>

definition spec_first_occurrence_ties ::
  "UseCaseFlat list \<Rightarrow> (string \<times> UseCaseFlat list) list \<Rightarrow> bool" where
  "spec_first_occurrence_ties records groups =
     sorted_wrt
       (\<lambda>a b. length (snd a) = length (snd b) \<longrightarrow>
                first_occurrence (map category_key records) (fst a)
                  < first_occurrence (map category_key records) (fst b))
       groups"

text \<open>
  The order in which an object lists its own keys: array-index keys by ascending value
  before all others, the others by first occurrence.
\<close>

definition own_key_before :: "string list \<Rightarrow> string \<Rightarrow> string \<Rightarrow> bool" where
  "own_key_before ks k k' =
     (if is_array_index k
      then is_array_index k' \<longrightarrow> numeric_value 0 k < numeric_value 0 k'
      else \<not> is_array_index k' \<and> first_occurrence ks k < first_occurrence ks k')"

text \<open>
  The keys in order of first occurrence, and the object that the loop builds from a list
  of records when no key is inherited: one property per key, holding the records of that
  key in list order.
\<close>

definition created_keys :: "UseCaseFlat list \<Rightarrow> string list" where
  "created_keys records = foldl Set_add [] (map category_key records)"

definition groups_of :: "UseCaseFlat list \<Rightarrow> (string \<times> UseCaseFlat list) list" where
  "groups_of records =
     map (\<lambda>k. (k, filter (\<lambda>uc. category_key uc = k) records)) (created_keys records)"

section \<open>Example data\<close>

definition example_record :: UseCaseFlat where
  "example_record =
     \<lparr>title = ''Draft a PRD'', one_liner = None, description = ''Write a first draft'',
      tools = [''Claude''], category = ''writing'', audience = ''everyone'',
      difficulty = ''beginner'', timestamp_seconds = None, intents = [''ship-faster''],
      is_pick = False, pick_reason = None, episode_id = ''e1'',
      episode_title = ''Episode one'', episode_url = None, guest_name = Some ''Ada'',
      guest_role = None, publish_date = ''20250101''\<rparr>"

text \<open>A three-record catalog: two records under \<open>coding\<close>, one under \<open>writing\<close>.\<close>

definition r1 :: UseCaseFlat where
  "r1 = example_record\<lparr>title := ''Refactor'', category := ''coding'', audience := ''everyone''\<rparr>"

definition r2 :: UseCaseFlat where
  "r2 = example_record\<lparr>title := ''Mock up'', category := ''coding'', audience := ''designer'',
          is_pick := True\<rparr>"

definition r3 :: UseCaseFlat where
  "r3 = example_record\<lparr>title := ''Essay'', category := ''writing'', audience := ''marketer''\<rparr>"

definition example_catalog :: "UseCaseFlat list" where
  "example_catalog = [r1, r2, r3]"

text \<open>Two records with equally large groups, the numeric-looking category second.\<close>

definition essay :: UseCaseFlat where
  "essay = example_record\<lparr>title := ''Essay'', category := ''writing''\<rparr>"

definition onboarding :: UseCaseFlat where
  "onboarding = example_record\<lparr>title := ''Onboarding'', category := ''101''\<rparr>"

definition tie_records :: "UseCaseFlat list" where
  "tie_records = [essay, onboarding]"

text \<open>A record without category, and one whose category is \<open>constructor\<close>.\<close>

definition untagged :: UseCaseFlat where
  "untagged = example_record\<lparr>title := ''Untagged'', category := []\<rparr>"

definition class_design :: UseCaseFlat where
  "class_design = example_record\<lparr>title := ''Class design'', category := ''constructor''\<rparr>"

definition inherited_key_records :: "UseCaseFlat list" where
  "inherited_key_records = [untagged, class_design]"

text \<open>An episode that mentions two tools, one of them the empty string.\<close>

definition example_episode :: Episode where
  "example_episode =
     \<lparr>ep_id = ''e1'', ep_title = ''Episode one'', ep_description = ''About agents'',
      ep_publish_date = ''20250101'', duration_seconds = 1800, thumbnail_url = ''t.jpg'',
      url = ''https://example.org/e1'', transcript = None,
      analysis = Some
        \<lparr>ea_guest_name = Some ''Ada'', ea_guest_role = None, summary = None,
         key_takeaways = [], use_cases = [], tools_mentioned = [''Cursor'', ''''],
         notable_quotes = []\<rparr>\<rparr>"

text \<open>
  A data directory whose analysed episode file holds one container with an \<open>id\<close> and
  nothing else, and whose use-case file holds the empty list.
\<close>

definition example_data :: data_dir where
  "example_data =
     (\<lambda>path. None)
       (''episodes-analyzed.json'' := Some (Text (Some (JArr [JObj [(''id'', JStr ''e1'')]]))),
        ''use-cases.json'' := Some (Text (Some (JArr []))))"

text \<open>
  A container with every required field and one nested use case, and a data directory
  that holds it in the analysed episode file and has no use-case file.
\<close>

definition wellformed_container :: json where
  "wellformed_container =
     JObj [(''id'', JStr ''e1''), (''title'', JStr ''Episode one''),
           (''description'', JStr ''About agents''), (''publish_date'', JStr ''20250101''),
           (''duration_seconds'', JNum 1800), (''thumbnail_url'', JStr ''t.jpg''),
           (''url'', JStr ''https://example.org/e1''), (''transcript'', JNull),
           (''analysis'',
            JObj [(''guest_name'', JStr ''Ada''), (''guest_role'', JNull),
                  (''summary'', JNull), (''key_takeaways'', JArr []),
                  (''use_cases'',
                   JArr [JObj [(''title'', JStr ''Refactor''), (''one_liner'', JNull),
                               (''description'', JStr ''Write a first draft''),
                               (''tools'', JArr [JStr ''Claude'']),
                               (''category'', JStr ''coding''),
                               (''audience'', JStr ''everyone''),
                               (''difficulty'', JStr ''beginner''),
                               (''timestamp_seconds'', JNull)]]),
                  (''tools_mentioned'', JArr [JStr ''Claude'']),
                  (''notable_quotes'', JArr [])])]"

definition wellformed_data :: data_dir where
  "wellformed_data =
     (\<lambda>path. None)
       (''episodes-analyzed.json'' := Some (Text (Some (JArr [wellformed_container]))))"

section \<open>Auxiliary facts\<close>

lemma js_includes_sublist: "js_includes s q \<longleftrightarrow> sublist q s"
  by (induction s) (simp_all add: sublist_Cons_right)

lemma toLowerCase_eq_Nil: "toLowerCase lc s = [] \<longleftrightarrow> s = []"
  using toLowerCase [of lc] by simp

lemma toLowerCase_ascii: "toLowerCase ascii_lower s = map toLowerChar s"
  by (simp add: ascii_lower_def Abs_case_mapping_inverse)

text \<open>
  The array expression of the code, \<open>[...].filter(Boolean).join(" ")\<close>, yields the
  non-empty values joined by single spaces.
\<close>

lemma join_spaced: "join '' '' ys = spec_spaced (map js_string ys)"
  by (induction ys rule: induct_list012) simp_all

lemma filter_Boolean_present:
  "map js_string (filter Boolean xs) = filter (\<lambda>s. s \<noteq> []) (concat (map present xs))"
proof (induction xs)
  case Nil
  show ?case by simp
next
  case (Cons x xs)
  then show ?case by (cases x) simp_all
qed

lemma join_filter_Boolean:
  "join '' '' (filter Boolean xs) = spec_joined (concat (map present xs))"
  by (simp add: join_spaced filter_Boolean_present spec_joined_def)

lemma concat_present_Some: "concat (map (present \<circ> Some) ts) = ts"
  by (induction ts) simp_all

lemma searchable_fields:
  "searchable lc uc =
     toLowerCase lc
       (spec_joined
         (title uc # present (one_liner uc) @ description uc # present (guest_name uc)
          @ episode_title uc # tools uc @ [category uc]))"
  unfolding searchable_def join_filter_Boolean by (simp add: concat_present_Some)

lemma UseCasesClient_searchable_fields:
  "UseCasesClient_searchable lc uc =
     toLowerCase lc
       (spec_joined
         (title uc # description uc # present (guest_name uc) @ episode_title uc # tools uc))"
  unfolding UseCasesClient_searchable_def join_filter_Boolean
  by (simp add: concat_present_Some)

text \<open>Each guard of the filter callbacks is the negation of one criterion.\<close>

lemma role_guard:
  "(Boolean sel \<and> Some (audience uc) \<noteq> sel \<and> audience uc \<noteq> ''everyone'')
     \<longleftrightarrow> \<not> spec_passes_role sel uc"
  by (cases sel) (auto simp: spec_passes_role_def)

lemma intent_guard:
  "(Boolean sel \<and> js_string sel \<notin> set (intents uc)) \<longleftrightarrow> \<not> spec_passes_intent sel uc"
  by (cases sel) (auto simp: spec_passes_intent_def)

lemma facet_guard: "(length sel > 0 \<and> v \<notin> set sel) \<longleftrightarrow> \<not> spec_passes_facet sel [v]"
  by (auto simp: spec_passes_facet_def)

lemma text_guard:
  "(q \<noteq> [] \<and> \<not> js_includes surface q) \<longleftrightarrow> \<not> spec_passes_text q surface"
  by (auto simp: spec_passes_text_def js_includes_sublist)

lemma HomeClient_keep_iff:
  "HomeClient_keep lc q role intent uc \<longleftrightarrow>
     spec_passes_role role uc \<and> spec_passes_intent intent uc \<and> spec_passes_text q (searchable lc uc)"
  unfolding HomeClient_keep_def role_guard intent_guard text_guard by simp

lemma UseCasesClient_keep_iff:
  "UseCasesClient_keep lc q role cats dfs uc \<longleftrightarrow>
     spec_passes_role role uc \<and> spec_passes_facet cats [category uc] \<and> spec_passes_facet dfs [difficulty uc]
     \<and> spec_passes_text q (UseCasesClient_searchable lc uc)"
  unfolding UseCasesClient_keep_def role_guard facet_guard text_guard by auto

lemma example_distinct: "r1 \<noteq> r2" "r1 \<noteq> r3" "r2 \<noteq> r3"
  by (simp_all add: r1_def r2_def r3_def example_record_def)

lemma example_designer:
  "HomeClient_filtered ascii_lower example_catalog [] (Some ''designer'') None = [r1, r2]"
  by (simp add: HomeClient_filtered_def HomeClient_keep_def example_catalog_def
        r1_def r2_def r3_def example_record_def toLowerCase_ascii)

lemma HomeClient_keep_no_role:
  "HomeClient_keep lc q role intent uc \<longleftrightarrow> spec_passes_role role uc \<and> HomeClient_keep lc q None intent uc"
  by (simp add: HomeClient_keep_iff spec_passes_role_def)

lemma HomeClient_keep_no_text:
  "HomeClient_keep lc q role intent uc \<longleftrightarrow> HomeClient_keep lc [] role intent uc \<and> spec_passes_text q (searchable lc uc)"
  by (simp add: HomeClient_keep_iff spec_passes_text_def)

lemma searchable_r1:
  "searchable ascii_lower r1 = ''refactor write a first draft ada episode one claude coding''"
  by (simp add: searchable_def r1_def example_record_def toLowerCase_ascii toLowerChar_def)

lemma floor_index_in_range:
  assumes "0 \<le> u" "u < 1" "0 < n"
  shows "nat \<lfloor>u * real n\<rfloor> < n"
proof -
  have "u * real n < real n" using assms by simp
  then have "\<lfloor>u * real n\<rfloor> < int n" by (simp add: floor_less_iff)
  moreover have "0 \<le> \<lfloor>u * real n\<rfloor>" using assms by simp
  ultimately show ?thesis by linarith
qed

lemma array_get_in_range: "i < length xs \<Longrightarrow> array_get xs i = Some (xs ! i) \<and> xs ! i \<in> set xs"
  by (simp add: array_get_def)

lemma set_foldl_Set_add: "set (foldl Set_add acc xs) = set acc \<union> set xs"
  by (induction xs arbitrary: acc) (auto simp: Set_add_def)

lemma set_categories_loop:
  "set (foldl (\<lambda>cats uc. if category uc \<noteq> [] then Set_add cats (category uc) else cats) acc ucs)
     = set acc \<union> {c \<in> category ` set ucs. c \<noteq> []}"
  by (induction ucs arbitrary: acc) (auto simp: Set_add_def)

lemma set_audiences_loop:
  "set (foldl (\<lambda>auds uc. if audience uc \<noteq> [] then Set_add auds (audience uc) else auds) acc ucs)
     = set acc \<union> {a \<in> audience ` set ucs. a \<noteq> []}"
  by (induction ucs arbitrary: acc) (auto simp: Set_add_def)

lemma getAllCategories_set: "set (getAllCategories ucs) = {c \<in> category ` set ucs. c \<noteq> []}"
  by (simp add: getAllCategories_def set_categories_loop)

lemma getAllAudiences_set: "set (getAllAudiences ucs) = {a \<in> audience ` set ucs. a \<noteq> []}"
  by (simp add: getAllAudiences_def set_audiences_loop)

lemma spec_surface_searchable: "spec_surface lc uc = searchable lc uc"
  by (simp add: spec_surface_def searchable_fields)

lemma spec_surface_r1:
  "spec_surface ascii_lower r1 = ''refactor write a first draft ada episode one claude coding''"
  by (simp add: spec_surface_searchable searchable_r1)

lemma spec_surface_r3:
  "spec_surface ascii_lower r3 = ''essay write a first draft ada episode one claude writing''"
  by (simp add: spec_surface_def spec_joined_def r3_def example_record_def toLowerCase_ascii
        toLowerChar_def)

lemma UseCasesClient_searchable_r3:
  "UseCasesClient_searchable ascii_lower r3 = ''essay write a first draft ada episode one claude''"
  by (simp add: UseCasesClient_searchable_def r3_def example_record_def toLowerCase_ascii
        toLowerChar_def)

section \<open>Query evaluation is sound and complete\<close>

text \<open>
  Claim C1, as stated, fails on its free-text criterion, which the specification
  defines by the trimmed term and the surface of all seven fields. On the home view the
  term \<open>"coding "\<close> (a trailing space) leaves out \<open>r1\<close>, whose category is \<open>coding\<close>: the
  code looks for the untrimmed term. On the use-case list view the term \<open>"writing"\<close>
  leaves out \<open>r3\<close>, whose category is \<open>writing\<close>: that view does not search the
  category. Both records satisfy every active criterion of the specification and are
  absent from the result.
\<close>

theorem evaluate_spec_criterion_counterexample:
  "r1 \<in> set [r1]
   \<and> spec_passes_role None r1 \<and> spec_passes_intent None r1
   \<and> spec_passes_trimmed_text ascii_lower ''coding '' r1
   \<and> r1 \<notin> set (HomeClient_filtered ascii_lower [r1] ''coding '' None None)
   \<and> r3 \<in> set [r3]
   \<and> spec_passes_role None r3
   \<and> spec_passes_facet [] [category r3] \<and> spec_passes_facet [] [difficulty r3]
   \<and> spec_passes_trimmed_text ascii_lower ''writing'' r3
   \<and> r3 \<notin> set (UseCasesClient_filtered ascii_lower [r3] ''writing'' None [] [])"
proof -
  have "spec_passes_trimmed_text ascii_lower ''coding '' r1"
    unfolding spec_passes_trimmed_text_def js_includes_sublist [symmetric]
    by (simp add: spec_surface_r1 trim_def isWhiteSpace_def toLowerCase_ascii toLowerChar_def)
  moreover have "spec_passes_trimmed_text ascii_lower ''writing'' r3"
    unfolding spec_passes_trimmed_text_def js_includes_sublist [symmetric]
    by (simp add: spec_surface_r3 trim_def isWhiteSpace_def toLowerCase_ascii toLowerChar_def)
  moreover have "HomeClient_filtered ascii_lower [r1] ''coding '' None None = []"
    by (simp add: HomeClient_filtered_def HomeClient_keep_def searchable_r1
          toLowerCase_ascii toLowerChar_def)
  moreover have "UseCasesClient_filtered ascii_lower [r3] ''writing'' None [] [] = []"
    by (simp add: UseCasesClient_filtered_def UseCasesClient_keep_def
          UseCasesClient_searchable_r3 toLowerCase_ascii toLowerChar_def)
  ultimately show ?thesis
    by (simp add: spec_passes_role_def spec_passes_intent_def spec_passes_facet_def)
qed

text \<open>
  Claim C1, amended. For every catalog and query state, evaluation returns exactly the
  records that satisfy all active constraints, in catalog order, where the free-text
  criterion is the code's: the lowercased term, not trimmed, is a contiguous part of the
  view's own lowercased surface. On the home view the constraints are role, intent and
  free text over title, one_liner, description, guest_name, episode_title, each tools
  entry and category; on the use-case list view they are role, the two multi-value
  facets (categories, difficulties) and free text over title, description, guest_name,
  episode_title and each tools entry. A surface is made of the non-empty values, joined
  by single spaces. Every returned record is a catalog record that passes each
  criterion, every catalog record left out fails at least one, the criteria are combined
  by conjunction, a multi-value facet passes when any selected value is the record's
  value, and an empty selection constrains nothing.
\<close>

theorem evaluate_sound_complete:
  "(let home = (\<lambda>uc. spec_passes_role role uc \<and> spec_passes_intent intent uc
                      \<and> spec_passes_text (toLowerCase lc search)
                           (toLowerCase lc
                             (spec_joined
                               (title uc # present (one_liner uc) @ description uc
                                # present (guest_name uc) @ episode_title uc # tools uc
                                @ [category uc]))));
        result = HomeClient_filtered lc ucs search role intent
    in result = filter home ucs
       \<and> (\<forall>uc \<in> set result. uc \<in> set ucs \<and> home uc)
       \<and> (\<forall>uc \<in> set ucs. uc \<notin> set result \<longrightarrow> \<not> home uc))
   \<and>
   (let listed = (\<lambda>uc. spec_passes_role role uc \<and> spec_passes_facet cats [category uc]
                        \<and> spec_passes_facet dfs [difficulty uc]
                        \<and> spec_passes_text (toLowerCase lc search)
                             (toLowerCase lc
                               (spec_joined
                                 (title uc # description uc # present (guest_name uc)
                                  @ episode_title uc # tools uc))));
        result = UseCasesClient_filtered lc ucs search role cats dfs
    in result = filter listed ucs
       \<and> (\<forall>uc \<in> set result. uc \<in> set ucs \<and> listed uc)
       \<and> (\<forall>uc \<in> set ucs. uc \<notin> set result \<longrightarrow> \<not> listed uc))"
proof -
  have "HomeClient_keep lc (toLowerCase lc search) role intent
          = (\<lambda>uc. spec_passes_role role uc \<and> spec_passes_intent intent uc
                      \<and> spec_passes_text (toLowerCase lc search)
                           (toLowerCase lc
                             (spec_joined
                               (title uc # present (one_liner uc) @ description uc
                                # present (guest_name uc) @ episode_title uc # tools uc
                                @ [category uc]))))"
    by (rule ext) (simp only: HomeClient_keep_iff searchable_fields)
  moreover have "UseCasesClient_keep lc (toLowerCase lc search) role cats dfs
          = (\<lambda>uc. spec_passes_role role uc \<and> spec_passes_facet cats [category uc]
                        \<and> spec_passes_facet dfs [difficulty uc]
                        \<and> spec_passes_text (toLowerCase lc search)
                             (toLowerCase lc
                               (spec_joined
                                 (title uc # description uc # present (guest_name uc)
                                  @ episode_title uc # tools uc))))"
    by (rule ext) (simp only: UseCasesClient_keep_iff UseCasesClient_searchable_fields)
  ultimately show ?thesis
    by (simp add: Let_def HomeClient_filtered_def UseCasesClient_filtered_def)
qed

theorem evaluate_sound_complete_witness:
  "r3 \<in> set example_catalog
   \<and> r3 \<notin> set (HomeClient_filtered ascii_lower example_catalog [] (Some ''designer'') None)
   \<and> \<not> spec_passes_role (Some ''designer'') r3
   \<and> UseCasesClient_filtered ascii_lower example_catalog ''CLAUDE'' None [''coding''] []
       = [r1, r2]
   \<and> spec_passes_facet [''coding''] [category r1]
   \<and> spec_passes_text (toLowerCase ascii_lower ''CLAUDE'')
        (toLowerCase ascii_lower
          (spec_joined
            (title r1 # description r1 # present (guest_name r1) @ episode_title r1
             # tools r1)))"
proof -
  have a: "r3 \<in> set example_catalog"
    by (simp add: example_catalog_def)
  have b: "r3 \<notin> set (HomeClient_filtered ascii_lower example_catalog [] (Some ''designer'') None)"
    using example_distinct by (simp add: example_designer)
  have c: "\<not> spec_passes_role (Some ''designer'') r3"
    by (simp add: spec_passes_role_def r3_def example_record_def)
  have d: "UseCasesClient_filtered ascii_lower example_catalog ''CLAUDE'' None [''coding''] []
            = [r1, r2]"
    by (simp add: UseCasesClient_filtered_def UseCasesClient_keep_def
          UseCasesClient_searchable_def example_catalog_def r1_def r2_def r3_def
          example_record_def toLowerCase_ascii toLowerChar_def)
  from evaluate_sound_complete
         [where lc = ascii_lower and ucs = example_catalog and search = "''CLAUDE''"
            and role = None and cats = "[''coding'']" and dfs = "[]"]
  have "\<forall>uc \<in> set (UseCasesClient_filtered ascii_lower example_catalog ''CLAUDE'' None
                      [''coding''] []).
          spec_passes_facet [''coding''] [category uc]
          \<and> spec_passes_text (toLowerCase ascii_lower ''CLAUDE'')
               (toLowerCase ascii_lower
                 (spec_joined
                   (title uc # description uc # present (guest_name uc) @ episode_title uc
                    # tools uc)))"
    unfolding Let_def by blast
  with a b c d show ?thesis by simp
qed

section \<open>The free-text criterion\<close>

text \<open>
  Claim C2, as stated, fails: the specification trims the search term, the code only
  lowercases it. With the term \<open>" Refactor"\<close> (a leading space) the trimmed term occurs
  in the search surface of \<open>r1\<close>, so the specification's criterion passes, while the
  code looks for \<open>" refactor"\<close>, which does not occur, and drops the record.
\<close>

theorem trimmed_search_counterexample:
  "'' Refactor'' \<noteq> [] \<and> spec_passes_trimmed_text ascii_lower '' Refactor'' r1
   \<and> \<not> HomeClient_keep ascii_lower (toLowerCase ascii_lower '' Refactor'') None None r1
   \<and> HomeClient_filtered ascii_lower [r1] '' Refactor'' None None = []"
proof -
  have "spec_passes_trimmed_text ascii_lower '' Refactor'' r1"
    unfolding spec_passes_trimmed_text_def js_includes_sublist [symmetric]
    by (simp add: spec_surface_r1 trim_def isWhiteSpace_def toLowerCase_ascii toLowerChar_def)
  moreover have
    "\<not> HomeClient_keep ascii_lower (toLowerCase ascii_lower '' Refactor'') None None r1"
    by (simp add: HomeClient_keep_def searchable_r1 toLowerCase_ascii toLowerChar_def)
  ultimately show ?thesis
    by (simp add: HomeClient_filtered_def)
qed

text \<open>
  Claim C2, amended. For every record and every query, the record passes the free-text
  guard if and only if the search term is empty or the lowercased search term, not
  trimmed, is a contiguous part of the lowercased string made by joining with single
  spaces the non-empty values among title, one_liner, description, guest_name,
  episode_title, each tools entry and category, in this order. The guard is independent
  of the role and intent guards, and an empty search term imposes no constraint.
\<close>

theorem text_criterion_untrimmed:
  "(HomeClient_keep lc (toLowerCase lc search) role intent uc
      \<longleftrightarrow> HomeClient_keep lc [] role intent uc
          \<and> (search = []
              \<or> sublist (toLowerCase lc search)
                   (toLowerCase lc
                     (spec_joined
                       (title uc # present (one_liner uc) @ description uc
                        # present (guest_name uc) @ episode_title uc # tools uc
                        @ [category uc])))))
   \<and> (search \<noteq> [] \<longrightarrow>
        HomeClient_filtered lc ucs search None None
          = filter (\<lambda>uc. sublist (toLowerCase lc search)
                            (toLowerCase lc
                              (spec_joined
                                (title uc # present (one_liner uc) @ description uc
                                 # present (guest_name uc) @ episode_title uc # tools uc
                                 @ [category uc])))) ucs)
   \<and> HomeClient_filtered lc ucs [] None None = ucs"
proof -
  have key: "HomeClient_keep lc (toLowerCase lc s) None None
          = (\<lambda>uc. s = [] \<or> sublist (toLowerCase lc s) (searchable lc uc))" for s
    by (rule ext) (simp add: HomeClient_keep_iff spec_passes_role_def spec_passes_intent_def
          spec_passes_text_def toLowerCase_eq_Nil)
  have "HomeClient_keep lc (toLowerCase lc search) role intent uc
      \<longleftrightarrow> HomeClient_keep lc [] role intent uc
          \<and> (search = [] \<or> sublist (toLowerCase lc search) (searchable lc uc))"
    by (simp add: HomeClient_keep_no_text [of lc "toLowerCase lc search"]
          spec_passes_text_def toLowerCase_eq_Nil)
  moreover have "search \<noteq> [] \<longrightarrow>
        HomeClient_filtered lc ucs search None None
          = filter (\<lambda>uc. sublist (toLowerCase lc search) (searchable lc uc)) ucs"
    by (simp add: HomeClient_filtered_def key)
  moreover have "HomeClient_filtered lc ucs [] None None = ucs"
    by (simp add: HomeClient_filtered_def key)
  ultimately show ?thesis
    unfolding searchable_fields by blast
qed

theorem text_criterion_untrimmed_witness:
  "''Claude'' \<noteq> [] \<and> HomeClient_filtered ascii_lower [r1] ''Claude'' None None = [r1]
   \<and> \<not> sublist (toLowerCase ascii_lower ''Claude'') (toLowerCase ascii_lower (title r1))"
proof -
  have "sublist (toLowerCase ascii_lower ''Claude'')
          (toLowerCase ascii_lower
            (spec_joined
              (title r1 # present (one_liner r1) @ description r1 # present (guest_name r1)
               @ episode_title r1 # tools r1 @ [category r1])))"
    unfolding js_includes_sublist [symmetric] searchable_fields [symmetric]
    by (simp add: searchable_r1 toLowerCase_ascii toLowerChar_def)
  moreover have
    "\<not> sublist (toLowerCase ascii_lower ''Claude'') (toLowerCase ascii_lower (title r1))"
    unfolding js_includes_sublist [symmetric]
    by (simp add: r1_def example_record_def toLowerCase_ascii toLowerChar_def)
  ultimately show ?thesis
    using text_criterion_untrimmed [where lc = ascii_lower and search = "''Claude''"
            and uc = r1 and ucs = "[r1]"]
    by simp
qed

section \<open>The role wildcard\<close>

text \<open>
  Claim C3. For a non-empty role selection, a record whose audience is \<open>everyone\<close>
  passes the role guard whatever the role, so selecting the role never removes it; when
  the role is the only active constraint (and also when no role is selected) every such
  catalog record is in the result. A record with another audience passes the role guard
  only when its audience is the selected role.
\<close>

theorem role_wildcard:
  "role \<noteq> [] \<longrightarrow>
     (audience uc = ''everyone'' \<longrightarrow>
        (HomeClient_keep lc q (Some role) intent uc \<longleftrightarrow> HomeClient_keep lc q None intent uc))
     \<and> (audience uc = ''everyone'' \<and> uc \<in> set ucs \<longrightarrow>
          uc \<in> set (HomeClient_filtered lc ucs [] (Some role) None)
          \<and> uc \<in> set (HomeClient_filtered lc ucs [] None None))
     \<and> (audience uc \<noteq> ''everyone'' \<longrightarrow>
          (HomeClient_keep lc q (Some role) intent uc
             \<longleftrightarrow> audience uc = role \<and> HomeClient_keep lc q None intent uc))"
  by (auto simp: HomeClient_filtered_def HomeClient_keep_iff spec_passes_role_def
        spec_passes_intent_def spec_passes_text_def toLowerCase_eq_Nil)

theorem role_wildcard_witness:
  "''designer'' \<noteq> [] \<and> audience r1 = ''everyone'' \<and> r1 \<in> set example_catalog
   \<and> r1 \<in> set (HomeClient_filtered ascii_lower example_catalog [] (Some ''designer'') None)
   \<and> r1 \<in> set (HomeClient_filtered ascii_lower example_catalog [] None None)
   \<and> audience r2 \<noteq> ''everyone''
   \<and> (HomeClient_keep ascii_lower [] (Some ''designer'') None r2
         \<longleftrightarrow> audience r2 = ''designer'' \<and> HomeClient_keep ascii_lower [] None None r2)"
proof -
  have a: "audience r1 = ''everyone''" "audience r2 \<noteq> ''everyone''"
    by (simp_all add: r1_def r2_def example_record_def)
  have b: "r1 \<in> set example_catalog"
    by (simp add: example_catalog_def)
  have c: "''designer'' \<noteq> []" by simp
  from role_wildcard [where lc = ascii_lower and role = "''designer''" and uc = r1
                        and q = "[]" and intent = None and ucs = example_catalog] a b c
    role_wildcard [where lc = ascii_lower and role = "''designer''" and uc = r2
                     and q = "[]" and intent = None and ucs = example_catalog]
  show ?thesis by blast
qed

section \<open>The visible window of a group\<close>

text \<open>
  Claim C5. With the page size 6, the collapsed window of a group is its first
  \<open>min 6 |group|\<close> members in order, the expanded window is the whole group in order, and
  the page size constant is 6.
\<close>

theorem visible_window:
  "visible g False = take (min 6 (length g)) g
   \<and> length (visible g False) = min 6 (length g)
   \<and> visible g True = g
   \<and> CARDS_PER_CATEGORY = 6"
  by (simp add: visible_def slice0_def CARDS_PER_CATEGORY_def min_def)

section \<open>Curated picks\<close>

text \<open>
  Claim C8. The picks view is the \<open>is_pick\<close> subsequence of the evaluated result, in the
  same order; restricting to picks commutes with query evaluation, so the picks shown are
  exactly the catalog's picks that pass the active query constraints.
\<close>

theorem picks_commute:
  "filteredPicks (HomeClient_filtered lc ucs search role intent)
     = filter is_pick (HomeClient_filtered lc ucs search role intent)
   \<and> filteredPicks (HomeClient_filtered lc ucs search role intent)
     = HomeClient_filtered lc (picks ucs) search role intent
   \<and> set (filteredPicks (HomeClient_filtered lc ucs search role intent))
     = {uc \<in> set ucs. is_pick uc \<and> HomeClient_keep lc (toLowerCase lc search) role intent uc}"
  by (auto simp: filteredPicks_def picks_def HomeClient_filtered_def conj_commute)

section \<open>Sampling\<close>

text \<open>
  Claim C6, as stated, fails in its last part: with an empty pool and an empty catalog
  the handler does not fail with \<open>EmptyCatalogError\<close>. It reads index 0 of the empty
  array, obtains \<open>undefined\<close> and stores it, so no record is shown and nothing is raised.
\<close>

theorem sample_no_error_counterexample:
  "handleSurpriseMe [] [] (1 / 2) = Inr None
   \<and> handleSurpriseMe [] [] (1 / 2) \<noteq> Inl EmptyCatalogError"
  by (simp add: handleSurpriseMe_def array_get_def)

text \<open>
  Claim C6, amended. For every draw of \<open>Math.random()\<close> in \<open>[0, 1)\<close>: when the pool is
  non-empty the handler yields an element of the pool (a pool of size 1 yields its single
  element); when the pool is empty and the catalog is not, it yields an element of the
  full catalog; when both are empty it yields \<open>undefined\<close> (no record). It never raises
  an error.
\<close>

theorem sample_from_pool:
  "0 \<le> u \<and> u < 1 \<longrightarrow>
     (filtered \<noteq> [] \<longrightarrow>
        (\<exists>uc \<in> set filtered. handleSurpriseMe filtered useCases u = Inr (Some uc)))
     \<and> handleSurpriseMe [uc] useCases u = Inr (Some uc)
     \<and> (filtered = [] \<and> useCases \<noteq> [] \<longrightarrow>
          (\<exists>uc \<in> set useCases. handleSurpriseMe filtered useCases u = Inr (Some uc)))
     \<and> (filtered = [] \<and> useCases = [] \<longrightarrow> handleSurpriseMe filtered useCases u = Inr None)
     \<and> handleSurpriseMe filtered useCases u \<noteq> Inl e"
proof (intro impI, elim conjE)
  assume u: "0 \<le> u" "u < 1"
  have draw: "\<exists>x \<in> set xs. array_get xs (nat \<lfloor>u * real (length xs)\<rfloor>) = Some x"
    if "xs \<noteq> []" for xs :: "UseCaseFlat list"
  proof -
    from that have "nat \<lfloor>u * real (length xs)\<rfloor> < length xs"
      using u by (intro floor_index_in_range) simp_all
    then show ?thesis using array_get_in_range by blast
  qed
  have one: "nat \<lfloor>u\<rfloor> = 0" using u by (simp add: floor_eq_iff)
  show "(filtered \<noteq> [] \<longrightarrow>
        (\<exists>uc \<in> set filtered. handleSurpriseMe filtered useCases u = Inr (Some uc)))
     \<and> handleSurpriseMe [uc] useCases u = Inr (Some uc)
     \<and> (filtered = [] \<and> useCases \<noteq> [] \<longrightarrow>
          (\<exists>uc \<in> set useCases. handleSurpriseMe filtered useCases u = Inr (Some uc)))
     \<and> (filtered = [] \<and> useCases = [] \<longrightarrow> handleSurpriseMe filtered useCases u = Inr None)
     \<and> handleSurpriseMe filtered useCases u \<noteq> Inl e"
    using draw [of filtered] draw [of useCases] one
    by (auto simp: handleSurpriseMe_def Let_def array_get_def)
qed

theorem sample_from_pool_witness:
  "(0::real) \<le> 1 / 2 \<and> (1 / 2 :: real) < 1 \<and> [r1, r2] \<noteq> []
   \<and> (\<exists>uc \<in> set [r1, r2]. handleSurpriseMe [r1, r2] example_catalog (1 / 2) = Inr (Some uc))
   \<and> handleSurpriseMe [] [] (1 / 2) = Inr None"
  using sample_from_pool [of "1 / 2" "[r1, r2]" example_catalog r1]
    sample_from_pool [of "1 / 2" "[]" "[]" r1]
  by simp

section \<open>Loading\<close>

text \<open>
  Claim C7, as stated, fails in both halves. The loaders validate nothing: a container
  that lacks required scalar fields is returned as parsed, and no \<open>MalformedInputError\<close>
  is raised. And they flatten nothing: for a well-formed container with one nested use
  case and no use-case file, loading succeeds with the empty list of records, where the
  specification calls for one record.
\<close>

theorem load_unvalidated_counterexample:
  "\<not> spec_has_required_scalars (JObj [(''id'', JStr ''e1'')])
   \<and> Home_load example_data = Inr (JArr [JObj [(''id'', JStr ''e1'')]], JArr [])
   \<and> Home_load example_data \<noteq> Inl MalformedInputError
   \<and> spec_has_required_scalars wellformed_container
   \<and> spec_flat_count (JArr [wellformed_container]) = 1
   \<and> Home_load wellformed_data = Inr (JArr [wellformed_container], JArr [])
   \<and> length (json_items (JArr [])) \<noteq> spec_flat_count (JArr [wellformed_container])"
proof -
  have "Home_load example_data = Inr (JArr [JObj [(''id'', JStr ''e1'')]], JArr [])"
    by (simp add: Home_load_def getEpisodes_def getUseCases_def existsSync_def
          readFileSync_def JSON_parse_def example_data_def)
  moreover have "Home_load wellformed_data = Inr (JArr [wellformed_container], JArr [])"
    by (simp add: Home_load_def getEpisodes_def getUseCases_def existsSync_def
          readFileSync_def JSON_parse_def wellformed_data_def)
  moreover have "spec_has_required_scalars wellformed_container"
    by (simp add: wellformed_container_def Episode_required_scalars_def)
  moreover have "spec_flat_count (JArr [wellformed_container]) = 1"
    by (simp add: spec_flat_count_def spec_use_cases_def wellformed_container_def)
  ultimately show ?thesis
    by (simp add: Episode_required_scalars_def)
qed

text \<open>
  Claim C7, amended. Loading validates nothing and derives nothing from the containers.
  The container list is the parsed content of \<open>episodes-analyzed.json\<close>; when that
  file does not exist, of \<open>episodes.json\<close>; when neither exists, the empty list. The
  record list is the parsed content of \<open>use-cases.json\<close>; when that file does not exist,
  the empty list. Each content is returned unchanged, so in file order and with whatever
  fields its entries have. A file that exists but cannot be read fails the load with the
  file system's error, a file whose text is not JSON fails it with the parser's
  \<open>SyntaxError\<close>, the container list being loaded first; in every other case the load
  succeeds with the two lists. It never fails with \<open>MalformedInputError\<close>.
\<close>

theorem load_returns_parsed_files:
  "(data ''episodes-analyzed.json'' = Some (Text (Some v)) \<longrightarrow> getEpisodes data = Inr v)
   \<and> (data ''episodes-analyzed.json'' = Some (Text None)
        \<longrightarrow> getEpisodes data = Inl SyntaxError)
   \<and> (data ''episodes-analyzed.json'' = Some Unreadable
        \<longrightarrow> getEpisodes data = Inl SystemError)
   \<and> (data ''episodes-analyzed.json'' = None \<and> data ''episodes.json'' = Some (Text (Some v))
        \<longrightarrow> getEpisodes data = Inr v)
   \<and> (data ''episodes-analyzed.json'' = None \<and> data ''episodes.json'' = Some (Text None)
        \<longrightarrow> getEpisodes data = Inl SyntaxError)
   \<and> (data ''episodes-analyzed.json'' = None \<and> data ''episodes.json'' = Some Unreadable
        \<longrightarrow> getEpisodes data = Inl SystemError)
   \<and> (data ''episodes-analyzed.json'' = None \<and> data ''episodes.json'' = None
        \<longrightarrow> getEpisodes data = Inr (JArr []))
   \<and> (data ''use-cases.json'' = Some (Text (Some w)) \<longrightarrow> getUseCases data = Inr w)
   \<and> (data ''use-cases.json'' = Some (Text None) \<longrightarrow> getUseCases data = Inl SyntaxError)
   \<and> (data ''use-cases.json'' = Some Unreadable \<longrightarrow> getUseCases data = Inl SystemError)
   \<and> (data ''use-cases.json'' = None \<longrightarrow> getUseCases data = Inr (JArr []))
   \<and> (Home_load data = Inr (episodes, useCases)
        \<longleftrightarrow> getEpisodes data = Inr episodes \<and> getUseCases data = Inr useCases)
   \<and> (Home_load data = Inl e
        \<longleftrightarrow> getEpisodes data = Inl e
            \<or> (\<exists>episodes. getEpisodes data = Inr episodes) \<and> getUseCases data = Inl e)
   \<and> Home_load data \<noteq> Inl MalformedInputError"
proof -
  have eps: "getEpisodes data \<noteq> Inl MalformedInputError"
    by (simp add: getEpisodes_def existsSync_def readFileSync_def JSON_parse_def
          split: option.splits entry.splits)
  have ucs: "getUseCases data \<noteq> Inl MalformedInputError"
    by (simp add: getUseCases_def existsSync_def readFileSync_def JSON_parse_def
          split: option.splits entry.splits)
  have 1: "Home_load data = Inr (episodes, useCases)
        \<longleftrightarrow> getEpisodes data = Inr episodes \<and> getUseCases data = Inr useCases"
    by (auto simp: Home_load_def split: sum.splits)
  have 2: "Home_load data = Inl e
        \<longleftrightarrow> getEpisodes data = Inl e
            \<or> (\<exists>episodes. getEpisodes data = Inr episodes) \<and> getUseCases data = Inl e"
    by (auto simp: Home_load_def split: sum.splits)
  have 3: "Home_load data \<noteq> Inl MalformedInputError"
    using eps ucs by (auto simp: Home_load_def split: sum.splits)
  show ?thesis
    unfolding 1 2
    using 3
    by (simp add: getEpisodes_def getUseCases_def existsSync_def readFileSync_def
          JSON_parse_def)
qed

theorem load_returns_parsed_files_witness:
  "wellformed_data ''episodes-analyzed.json'' = Some (Text (Some (JArr [wellformed_container])))
   \<and> wellformed_data ''use-cases.json'' = None
   \<and> getEpisodes wellformed_data = Inr (JArr [wellformed_container])
   \<and> getUseCases wellformed_data = Inr (JArr [])
   \<and> Home_load wellformed_data = Inr (JArr [wellformed_container], JArr [])"
proof -
  have a: "wellformed_data ''episodes-analyzed.json''
             = Some (Text (Some (JArr [wellformed_container])))"
    and b: "wellformed_data ''use-cases.json'' = None"
    by (simp_all add: wellformed_data_def)
  with load_returns_parsed_files
         [where data = wellformed_data and v = "JArr [wellformed_container]"
            and episodes = "JArr [wellformed_container]" and useCases = "JArr []"]
  show ?thesis by blast
qed

section \<open>Facet values\<close>

text \<open>
  Claim C9 says that no facet value list contains an empty string. \<open>getAllCategories\<close>
  and \<open>getAllAudiences\<close> guard each value and never return one; \<open>getAllTools\<close> adds
  every \<open>tools_mentioned\<close> entry unguarded, so for an episode that mentions the tools
  \<open>"Cursor"\<close> and \<open>""\<close> it returns the empty string among the tool options.
\<close>

theorem getAllTools_keeps_empty_string:
  "getAllTools [example_episode] = ['''', ''Cursor''] \<and> '''' \<in> set (getAllTools [example_episode])
   \<and> [] \<notin> set (getAllCategories ucs) \<and> [] \<notin> set (getAllAudiences ucs)"
  by (simp add: getAllTools_def example_episode_def Set_add_def getAllCategories_set getAllAudiences_set)

section \<open>Grouping by category\<close>

subsection \<open>What the loop builds\<close>

lemma grouped_loop_append:
  "grouped_loop g (xs @ ys) =
     (case grouped_loop g xs of Inl e \<Rightarrow> Inl e | Inr g' \<Rightarrow> grouped_loop g' ys)"
  by (induction xs arbitrary: g) (simp_all split: sum.splits)

lemma distinct_foldl_Set_add: "distinct acc \<Longrightarrow> distinct (foldl Set_add acc xs)"
  by (induction xs arbitrary: acc) (simp_all add: Set_add_def)

lemma set_created_keys: "set (created_keys rs) = category_key ` set rs"
  by (simp add: created_keys_def set_foldl_Set_add)

lemma distinct_created_keys: "distinct (created_keys rs)"
  by (simp add: created_keys_def distinct_foldl_Set_add)

lemma created_keys_snoc:
  "created_keys (rs @ [r]) =
     (if category_key r \<in> category_key ` set rs then created_keys rs
      else created_keys rs @ [category_key r])"
  using set_created_keys [of rs] by (simp add: created_keys_def Set_add_def)

lemma map_of_groups_of:
  "map_of (groups_of rs) k =
     (if k \<in> category_key ` set rs then Some (filter (\<lambda>uc. category_key uc = k) rs) else None)"
  by (simp add: groups_of_def map_of_map_restrict restrict_map_def set_created_keys)

lemma filter_key_absent: "k \<notin> category_key ` set rs \<Longrightarrow> filter (\<lambda>uc. category_key uc = k) rs = []"
  by (auto simp: filter_empty_conv)

lemma grouped_step_groups_of:
  assumes "category_key r \<notin> set Object_prototype_keys"
  shows "grouped_step (groups_of rs) r = Inr (groups_of (rs @ [r]))"
proof (cases "category_key r \<in> category_key ` set rs")
  case True
  then have "grouped_step (groups_of rs) r =
      Inr (map (\<lambda>(k, v). if k = category_key r then (k, v @ [r]) else (k, v)) (groups_of rs))"
    by (simp add: grouped_step_def get_property_def map_of_groups_of)
  also have "map (\<lambda>(k, v). if k = category_key r then (k, v @ [r]) else (k, v)) (groups_of rs)
      = groups_of (rs @ [r])"
    using True by (simp add: groups_of_def created_keys_snoc)
  finally show ?thesis .
next
  case False
  then have "grouped_step (groups_of rs) r = Inr (groups_of rs @ [(category_key r, [r])])"
    using assms by (simp add: grouped_step_def get_property_def map_of_groups_of)
  also have "groups_of rs @ [(category_key r, [r])] = groups_of (rs @ [r])"
    using False by (auto simp: groups_of_def created_keys_snoc set_created_keys filter_key_absent)
  finally show ?thesis .
qed

lemma grouped_loop_groups_of:
  "\<forall>uc \<in> set rs. category_key uc \<notin> set Object_prototype_keys
     \<Longrightarrow> grouped_loop [] rs = Inr (groups_of rs)"
proof (induction rs rule: rev_induct)
  case Nil
  show ?case by (simp add: groups_of_def created_keys_def)
next
  case (snoc r rs)
  then show ?case
    by (simp add: grouped_loop_append grouped_step_groups_of)
qed


lemma mset_Object_entries: "mset (Object_entries obj) = mset obj"
  by (simp add: Object_entries_def)

lemma set_Object_entries: "set (Object_entries obj) = set obj"
  using mset_Object_entries [of obj] by (metis set_mset_mset)

text \<open>A stable sort keeps, among elements of equal key, the order they had.\<close>

lemma sorted_wrt_insort_key_stable:
  fixes f :: "'a \<Rightarrow> 'k::linorder"
  assumes "sorted_wrt (\<lambda>a b. f a < f b \<or> f a = f b \<and> R a b) ys"
    and "\<forall>y \<in> set ys. R x y"
  shows "sorted_wrt (\<lambda>a b. f a < f b \<or> f a = f b \<and> R a b) (insort_key f x ys)"
  using assms
proof (induction ys)
  case Nil
  then show ?case by simp
next
  case (Cons y ys)
  show ?case
  proof (cases "f x \<le> f y")
    case True
    have "f x < f z \<or> f x = f z \<and> R x z" if "z \<in> set (y # ys)" for z
    proof -
      have "f y \<le> f z" using Cons.prems(1) that by auto
      with True have "f x \<le> f z" by simp
      moreover have "R x z" using Cons.prems(2) that by auto
      ultimately show ?thesis by auto
    qed
    with True Cons.prems(1) show ?thesis by simp
  next
    case False
    then have "f y < f x" by simp
    moreover have "sorted_wrt (\<lambda>a b. f a < f b \<or> f a = f b \<and> R a b) (insort_key f x ys)"
      using Cons by simp
    ultimately show ?thesis
      using False Cons.prems(1) by (auto simp: set_insort_key)
  qed
qed

lemma sorted_wrt_sort_key_stable:
  fixes f :: "'a \<Rightarrow> 'k::linorder"
  assumes "sorted_wrt R xs"
  shows "sorted_wrt (\<lambda>a b. f a < f b \<or> f a = f b \<and> R a b) (sort_key f xs)"
  using assms
proof (induction xs)
  case Nil
  then show ?case by simp
next
  case (Cons x xs)
  then show ?case
    by (simp add: sorted_wrt_insort_key_stable)
qed

text \<open>The keys are created in the order of their first occurrence.\<close>

lemma first_occurrence_snoc_old:
  "k \<in> set ks \<Longrightarrow> first_occurrence (ks @ [x]) k = first_occurrence ks k"
  by (simp add: first_occurrence_def takeWhile_append1) 

lemma first_occurrence_less: "k \<in> set ks \<Longrightarrow> first_occurrence ks k < length ks"
  by (induction ks) (auto simp: first_occurrence_def)

lemma first_occurrence_new: "k \<notin> set ks \<Longrightarrow> first_occurrence (ks @ [k]) k = length ks"
  by (induction ks) (auto simp: first_occurrence_def)

lemma sorted_wrt_created_keys:
  "sorted_wrt (\<lambda>k k'. first_occurrence (map category_key rs) k
                        < first_occurrence (map category_key rs) k') (created_keys rs)"
proof (induction rs rule: rev_induct)
  case Nil
  show ?case by (simp add: created_keys_def)
next
  case (snoc r rs)
  let ?ks = "map category_key rs"
  have old: "sorted_wrt (\<lambda>k k'. first_occurrence (?ks @ [category_key r]) k
                        < first_occurrence (?ks @ [category_key r]) k') (created_keys rs)"
    using snoc
    by (rule sorted_wrt_mono_rel [rotated])
       (simp add: first_occurrence_snoc_old set_created_keys)
  show ?case
  proof (cases "category_key r \<in> category_key ` set rs")
    case True
    with old show ?thesis by (simp add: created_keys_snoc)
  next
    case False
    have "first_occurrence (?ks @ [category_key r]) k
            < first_occurrence (?ks @ [category_key r]) (category_key r)"
      if "k \<in> set (created_keys rs)" for k
      using that False first_occurrence_less [of k ?ks]
      by (simp add: set_created_keys first_occurrence_snoc_old first_occurrence_new)
    with old False show ?thesis
      by (simp add: created_keys_snoc sorted_wrt_append)
  qed
qed

lemma sorted_wrt_groups_of:
  "sorted_wrt (\<lambda>a b. first_occurrence (map category_key rs) (fst a)
                        < first_occurrence (map category_key rs) (fst b)) (groups_of rs)"
  using sorted_wrt_created_keys [of rs]
  by (simp add: groups_of_def sorted_wrt_map)

text \<open>Distinct array-index keys have distinct values: a canonical numeral is determined by its value.\<close>

lemma numeric_value_acc: "numeric_value n s = n * 10 ^ length s + numeric_value 0 s"
proof (induction s arbitrary: n)
  case Nil
  show ?case by simp
next
  case (Cons c cs)
  let ?d = "case digit_value c of Some d \<Rightarrow> d | None \<Rightarrow> 0"
  have "numeric_value n (c # cs) = (10 * n + ?d) * 10 ^ length cs + numeric_value 0 cs"
    using Cons.IH [of "10 * n + ?d"] by simp
  moreover have "numeric_value 0 (c # cs) = ?d * 10 ^ length cs + numeric_value 0 cs"
    using Cons.IH [of "?d"] by simp
  ultimately show ?case by (simp add: algebra_simps)
qed

lemma digit_value_less: "digit_value c = Some d \<Longrightarrow> d < 10"
  by (auto simp: digit_value_def split: if_splits)

lemma digit_value_inj: "digit_value c = Some d \<Longrightarrow> digit_value c' = Some d \<Longrightarrow> c = c'"
  by (auto simp: digit_value_def split: if_splits)

lemma digit_value_zero: "digit_value c = Some 0 \<Longrightarrow> c = CHR ''0''"
  by (auto simp: digit_value_def split: if_splits)

lemma numeric_value_less:
  "list_all isDigit s \<Longrightarrow> numeric_value 0 s < 10 ^ length s"
proof (induction s)
  case Nil
  show ?case by simp
next
  case (Cons c cs)
  then obtain d where d: "digit_value c = Some d" by (auto simp: isDigit_def)
  then have "d < 10" by (rule digit_value_less)
  then have "Suc d \<le> 10" by simp
  then have "Suc d * 10 ^ length cs \<le> 10 * 10 ^ length cs"
    by (rule mult_le_mono1)
  then have "d * 10 ^ length cs + 10 ^ length cs \<le> 10 * 10 ^ length cs"
    by simp
  moreover have "numeric_value 0 cs < 10 ^ length cs"
    using Cons by simp
  ultimately have "d * 10 ^ length cs + numeric_value 0 cs < 10 * 10 ^ length cs"
    by linarith
  then show ?case
    using d by (simp add: numeric_value_acc [of d cs])
qed

lemma numeric_value_inj_same_length:
  assumes "length s = length t"
    and "list_all isDigit s" and "list_all isDigit t"
    and "numeric_value 0 s = numeric_value 0 t"
  shows "s = t"
  using assms
proof (induction s t rule: list_induct2)
  case Nil
  show ?case by simp
next
  case (Cons c cs d ds)
  obtain a b where a: "digit_value c = Some a" and b: "digit_value d = Some b"
    using Cons.prems by (auto simp: isDigit_def)
  let ?N = "(10::nat) ^ length cs"
  have x: "numeric_value 0 cs < ?N" and y: "numeric_value 0 ds < ?N"
    using Cons.prems Cons.hyps numeric_value_less [of cs] numeric_value_less [of ds]
    by simp_all
  have eq: "a * ?N + numeric_value 0 cs = b * ?N + numeric_value 0 ds"
    using Cons.prems(3) a b Cons.hyps
    by (simp add: numeric_value_acc [of a cs] numeric_value_acc [of b ds])
  have "(a * ?N + numeric_value 0 cs) div ?N = a" "(b * ?N + numeric_value 0 ds) div ?N = b"
    using x y by simp_all
  with eq have ab: "a = b" by metis
  with eq have "numeric_value 0 cs = numeric_value 0 ds" by simp
  with Cons have "cs = ds" by simp
  moreover have "c = d" using a b ab digit_value_inj by blast
  ultimately show ?case by simp
qed

lemma numeric_value_leading:
  assumes "list_all isDigit (c # cs)" and "c \<noteq> CHR ''0''"
  shows "10 ^ length cs \<le> numeric_value 0 (c # cs)"
proof -
  obtain d where d: "digit_value c = Some d" using assms by (auto simp: isDigit_def)
  have "d \<noteq> 0"
  proof
    assume "d = 0"
    with d have "c = CHR ''0''" by (intro digit_value_zero) simp
    with assms(2) show False by simp
  qed
  then have "1 \<le> d" by simp
  then have "1 * 10 ^ length cs \<le> d * 10 ^ length cs"
    by (rule mult_le_mono1)
  moreover have "numeric_value 0 (c # cs) = d * 10 ^ length cs + numeric_value 0 cs"
    using d by (simp add: numeric_value_acc [of d cs])
  ultimately show ?thesis by linarith
qed

lemma array_index_cases:
  assumes "is_array_index k"
  obtains "k = ''0''" | c cs where "k = c # cs" "c \<noteq> CHR ''0''"
  using assms by (cases k) (auto simp: is_array_index_def)

lemma array_index_digits: "is_array_index k \<Longrightarrow> list_all isDigit k"
  by (simp add: is_array_index_def)

lemma numeric_value_inj:
  assumes "is_array_index k" and "is_array_index k'"
    and "numeric_value 0 k = numeric_value 0 k'"
  shows "k = k'"
proof -
  have zero: "numeric_value 0 ''0'' = 0" by (simp add: digit_value_def)
  have pos: "0 < numeric_value 0 (c # cs)"
    if "list_all isDigit (c # cs)" "c \<noteq> CHR ''0''" for c cs
    using numeric_value_leading [OF that]
    by (metis less_le_trans zero_less_numeral zero_less_power)
  from assms(1) show ?thesis
  proof (cases rule: array_index_cases)
    case 1
    from assms(2) show ?thesis
    proof (cases rule: array_index_cases)
      case 1
      with \<open>k = ''0''\<close> show ?thesis by simp
    next
      case (2 c cs)
      with pos [of c cs] array_index_digits [OF assms(2)] assms(3) zero \<open>k = ''0''\<close>
      show ?thesis by simp
    qed
  next
    case (2 c cs)
    note k = this
    from assms(2) show ?thesis
    proof (cases rule: array_index_cases)
      case 1
      with pos [of c cs] array_index_digits [OF assms(1)] assms(3) zero k
      show ?thesis by simp
    next
      case (2 c' cs')
      have dk: "list_all isDigit (c # cs)"
        and dk': "list_all isDigit (c' # cs')"
        using array_index_digits [OF assms(1)] array_index_digits [OF assms(2)] k 2
        by simp_all
      have "length cs = length cs'"
      proof (rule ccontr)
        assume "length cs \<noteq> length cs'"
        then consider "length cs < length cs'" | "length cs' < length cs" by linarith
        then show False
        proof cases
          case 1
          have "numeric_value 0 (c # cs) < 10 ^ length (c # cs)"
            using dk by (rule numeric_value_less)
          also have "\<dots> \<le> 10 ^ length cs'"
            using 1 by (simp del: power_Suc add: power_Suc [symmetric] power_increasing)
          also have "\<dots> \<le> numeric_value 0 (c' # cs')"
            using dk' 2 by (intro numeric_value_leading)
          finally show False using assms(3) k 2 by simp
        next
          case 2
          have "numeric_value 0 (c' # cs') < 10 ^ length (c' # cs')"
            using dk' by (rule numeric_value_less)
          also have "\<dots> \<le> 10 ^ length cs"
            using 2 by (simp del: power_Suc add: power_Suc [symmetric] power_increasing)
          also have "\<dots> \<le> numeric_value 0 (c # cs)"
            using dk k by (intro numeric_value_leading)
          finally show False using assms(3) k \<open>k' = c' # cs'\<close> by simp
        qed
      qed
      then have "length (c # cs) = length (c' # cs')" by simp
      then have "c # cs = c' # cs'"
        using dk dk' assms(3) k 2 by (intro numeric_value_inj_same_length) simp_all
      with k 2 show ?thesis by simp
    qed
  qed
qed

lemma map_fst_groups_of: "map fst (groups_of rs) = created_keys rs"
  by (simp add: groups_of_def comp_def)

lemma sorted_wrt_distinct_keys: "distinct (map f xs) \<Longrightarrow> sorted_wrt (\<lambda>a b. f a \<noteq> f b) xs"
  by (induction xs) auto

lemma sorted_wrt_both:
  "sorted_wrt P xs \<Longrightarrow> sorted_wrt Q xs \<Longrightarrow> sorted_wrt (\<lambda>a b. P a b \<and> Q a b) xs"
  by (induction xs) auto

lemma sorted_wrt_Object_entries:
  "sorted_wrt (\<lambda>a b. own_key_before (map category_key rs) (fst a) (fst b))
     (Object_entries (groups_of rs))"
proof -
  let ?R = "\<lambda>a b. own_key_before (map category_key rs) (fst a) (fst b)"
  let ?v = "\<lambda>e :: string \<times> UseCaseFlat list. numeric_value 0 (fst e)"
  let ?ix = "filter (\<lambda>e. is_array_index (fst e)) (groups_of rs)"
  let ?nx = "filter (\<lambda>e. \<not> is_array_index (fst e)) (groups_of rs)"
  have "sorted (map ?v (sort_key ?v ?ix))"
    by (rule sorted_sort_key)
  then have le: "sorted_wrt (\<lambda>a b. ?v a \<le> ?v b) (sort_key ?v ?ix)"
    by (simp add: sorted_map)
  have "distinct (map fst ?ix)"
    using distinct_created_keys [of rs] by (simp add: distinct_map_filter map_fst_groups_of)
  moreover have "mset (map fst (sort_key ?v ?ix)) = mset (map fst ?ix)"
    by simp
  ultimately have "distinct (map fst (sort_key ?v ?ix))"
    using mset_eq_imp_distinct_iff by blast
  then have "sorted_wrt (\<lambda>a b. fst a \<noteq> fst b) (sort_key ?v ?ix)"
    by (rule sorted_wrt_distinct_keys)
  with le have "sorted_wrt (\<lambda>a b. ?v a \<le> ?v b \<and> fst a \<noteq> fst b) (sort_key ?v ?ix)"
    by (rule sorted_wrt_both)
  then have 1: "sorted_wrt ?R (sort_key ?v ?ix)"
  proof (rule sorted_wrt_mono_rel [rotated])
    fix a b
    assume "a \<in> set (sort_key ?v ?ix)" "b \<in> set (sort_key ?v ?ix)"
      and ab: "?v a \<le> ?v b \<and> fst a \<noteq> fst b"
    then have ix: "is_array_index (fst a)" "is_array_index (fst b)"
      by simp_all
    with ab have "?v a \<noteq> ?v b"
      using numeric_value_inj by blast
    with ab ix show "?R a b"
      by (simp add: own_key_before_def)
  qed
  have "sorted_wrt (\<lambda>a b. first_occurrence (map category_key rs) (fst a)
                        < first_occurrence (map category_key rs) (fst b)) ?nx"
    using sorted_wrt_groups_of by (rule sorted_wrt_filter)
  then have 2: "sorted_wrt ?R ?nx"
    by (rule sorted_wrt_mono_rel [rotated]) (simp add: own_key_before_def)
  have 3: "?R a b" if "a \<in> set (sort_key ?v ?ix)" "b \<in> set ?nx" for a b
    using that by (simp add: own_key_before_def)
  from 1 2 3 show ?thesis
    unfolding Object_entries_def sorted_wrt_append by blast
qed

lemma sum_list_indicator:
  "distinct ks \<Longrightarrow> x \<in> set ks \<Longrightarrow> (\<Sum>k\<leftarrow>ks. if x = k then 1 else 0) = (1::nat)"
  by (induction ks) auto

lemma sum_length_filter_keys:
  assumes "distinct ks" and "f ` set rs \<subseteq> set ks"
  shows "(\<Sum>k\<leftarrow>ks. length (filter (\<lambda>r. f r = k) rs)) = length rs"
  using assms(2)
proof (induction rs)
  case Nil
  show ?case by simp
next
  case (Cons r rs)
  have "(\<Sum>k\<leftarrow>ks. length (filter (\<lambda>r. f r = k) (r # rs)))
          = (\<Sum>k\<leftarrow>ks. (if f r = k then 1 else 0) + length (filter (\<lambda>r. f r = k) rs))"
    by (rule arg_cong [where f = sum_list]) simp
  also have "\<dots> = (\<Sum>k\<leftarrow>ks. if f r = k then 1 else 0)
                    + (\<Sum>k\<leftarrow>ks. length (filter (\<lambda>r. f r = k) rs))"
    by (simp add: sum_list_addf)
  also have "\<dots> = 1 + length rs"
    using Cons assms(1) by (simp add: sum_list_indicator)
  finally show ?case by simp
qed

lemma groups_of_total: "sum_list (map (length \<circ> snd) (groups_of rs)) = length rs"
  using sum_length_filter_keys [of "created_keys rs" category_key rs]
  by (simp add: groups_of_def comp_def distinct_created_keys set_created_keys)

lemma in_groups_of:
  "(k, members) \<in> set (groups_of rs) \<longleftrightarrow>
     k \<in> category_key ` set rs \<and> members = filter (\<lambda>uc. category_key uc = k) rs"
  by (auto simp: groups_of_def set_created_keys)

lemma grouped_closed_form:
  "\<forall>uc \<in> set records. category_key uc \<notin> set Object_prototype_keys \<Longrightarrow>
     grouped records
       = Inr (sort_key (\<lambda>e. - int (length (snd e))) (Object_entries (groups_of records)))"
  by (simp add: grouped_def grouped_loop_groups_of)

lemma mset_sorted_entries:
  "mset (sort_key f (Object_entries (groups_of records))) = mset (groups_of records)"
  by (simp add: mset_Object_entries)

lemma set_sorted_entries:
  "set (sort_key f (Object_entries (groups_of records))) = set (groups_of records)"
  by (simp add: set_Object_entries)

lemma example_no_inherited_key:
  "\<forall>uc \<in> set example_catalog. category_key uc \<notin> set Object_prototype_keys"
  by (simp add: example_catalog_def r1_def r2_def r3_def example_record_def category_key_def
        Object_prototype_keys_def)

lemma grouped_example:
  "grouped example_catalog = Inr [(''coding'', [r1, r2]), (''writing'', [r3])]"
  by (simp add: grouped_def grouped_step_def get_property_def category_key_def Let_def
        Object_entries_def is_array_index_def isDigit_def digit_value_def Object_prototype_keys_def
        example_catalog_def r1_def r2_def r3_def example_record_def)

lemma grouped_tie_records:
  "grouped tie_records = Inr [(''101'', [onboarding]), (''writing'', [essay])]"
  by (simp add: grouped_def grouped_step_def get_property_def category_key_def Let_def
        Object_entries_def is_array_index_def isDigit_def digit_value_def Object_prototype_keys_def
        tie_records_def essay_def onboarding_def example_record_def)

lemma inherited_key_throws: "grouped inherited_key_records = Inl TypeError"
  by (simp add: grouped_def grouped_step_def get_property_def category_key_def Let_def
        Object_prototype_keys_def inherited_key_records_def untagged_def class_design_def
        example_record_def)

subsection \<open>Partition and order of the groups\<close>

text \<open>
  Claim C4, as stated, fails in its tie-break: groups of equal size are not always in
  first-occurrence order. A record of category \<open>writing\<close> followed by one of category
  \<open>101\<close> gives two groups of one record each; \<open>Object.entries\<close> lists the array-index
  key \<open>101\<close> before \<open>writing\<close>, the stable sort keeps that order, and so the group that
  occurred second comes first.
\<close>

theorem first_occurrence_ties_counterexample:
  "map category_key tie_records = [''writing'', ''101'']
   \<and> grouped tie_records = Inr [(''101'', [onboarding]), (''writing'', [essay])]
   \<and> \<not> spec_first_occurrence_ties tie_records [(''101'', [onboarding]), (''writing'', [essay])]"
proof -
  have keys: "map category_key tie_records = [''writing'', ''101'']"
    by (simp add: tie_records_def essay_def onboarding_def example_record_def category_key_def)
  have "\<not> spec_first_occurrence_ties tie_records [(''101'', [onboarding]), (''writing'', [essay])]"
    by (simp add: spec_first_occurrence_ties_def first_occurrence_def keys)
  with keys grouped_tie_records show ?thesis by simp
qed

text \<open>
  Claim C4, amended. For every evaluated result set in which no record's category key
  (its category, or \<open>other\<close> when the category is empty) is a property name inherited
  from \<open>Object.prototype\<close>, grouping returns a partition of that set: the keys of the
  groups are distinct, each group is non-empty and holds exactly the records of its key
  in their relative canonical order, the group sizes sum to the number of records and
  each record occurs in exactly one group. The groups are ordered by descending member
  count; groups of equal size are in the object's own-key order, that is array-index
  keys first, by ascending numeric value, then the other keys in first-occurrence order
  among the records.
\<close>

theorem grouped_partition:
  assumes "\<forall>uc \<in> set records. category_key uc \<notin> set Object_prototype_keys"
  shows "\<exists>groups. grouped records = Inr groups
     \<and> distinct (map fst groups)
     \<and> (\<forall>(k, members) \<in> set groups.
          members \<noteq> [] \<and> members = filter (\<lambda>uc. category_key uc = k) records)
     \<and> sum_list (map (length \<circ> snd) groups) = length records
     \<and> (\<forall>uc \<in> set records. \<exists>!g. g \<in> set groups \<and> uc \<in> set (snd g))
     \<and> sorted_wrt (\<lambda>a b. length (snd a) \<ge> length (snd b)) groups
     \<and> sorted_wrt (\<lambda>a b. length (snd a) = length (snd b) \<longrightarrow>
                      own_key_before (map category_key records) (fst a) (fst b)) groups"
proof -
  let ?f = "\<lambda>e :: string \<times> UseCaseFlat list. - int (length (snd e))"
  define groups where "groups = sort_key ?f (Object_entries (groups_of records))"
  have res: "grouped records = Inr groups"
    using assms by (simp add: grouped_closed_form groups_def)
  have ms: "mset groups = mset (groups_of records)"
    unfolding groups_def by (rule mset_sorted_entries)
  have st: "set groups = set (groups_of records)"
    unfolding groups_def by (rule set_sorted_entries)
  have "mset (map fst groups) = mset (map fst (groups_of records))"
    by (simp add: ms)
  then have "distinct (map fst groups) \<longleftrightarrow> distinct (map fst (groups_of records))"
    by (rule mset_eq_imp_distinct_iff)
  then have d: "distinct (map fst groups)"
    by (simp add: map_fst_groups_of distinct_created_keys)
  have mem: "\<forall>(k, members) \<in> set groups.
          members \<noteq> [] \<and> members = filter (\<lambda>uc. category_key uc = k) records"
    unfolding st by (auto simp: in_groups_of empty_filter_conv)
  have "sum_mset (mset (map (length \<circ> snd) groups))
          = sum_mset (mset (map (length \<circ> snd) (groups_of records)))"
    by (simp add: ms)
  then have "sum_list (map (length \<circ> snd) groups)
               = sum_list (map (length \<circ> snd) (groups_of records))"
    by (simp only: sum_mset_sum_list)
  then have total: "sum_list (map (length \<circ> snd) groups) = length records"
    by (simp add: groups_of_total)
  have uniq: "\<exists>!g. g \<in> set groups \<and> uc \<in> set (snd g)" if "uc \<in> set records" for uc
  proof
    show "(category_key uc, filter (\<lambda>r. category_key r = category_key uc) records) \<in> set groups
          \<and> uc \<in> set (snd (category_key uc,
                                filter (\<lambda>r. category_key r = category_key uc) records))"
      using that by (simp add: st in_groups_of)
  next
    fix g assume "g \<in> set groups \<and> uc \<in> set (snd g)"
    then show "g = (category_key uc, filter (\<lambda>r. category_key r = category_key uc) records)"
      by (cases g) (auto simp: st in_groups_of)
  qed
  have "sorted (map ?f groups)"
    unfolding groups_def by (rule sorted_sort_key)
  then have srt: "sorted_wrt (\<lambda>a b. length (snd a) \<ge> length (snd b)) groups"
    by (simp add: sorted_map)
  have "sorted_wrt (\<lambda>a b. ?f a < ?f b \<or> ?f a = ?f b
                       \<and> own_key_before (map category_key records) (fst a) (fst b)) groups"
    unfolding groups_def
    by (rule sorted_wrt_sort_key_stable) (rule sorted_wrt_Object_entries)
  then have ties: "sorted_wrt (\<lambda>a b. length (snd a) = length (snd b) \<longrightarrow>
                      own_key_before (map category_key records) (fst a) (fst b)) groups"
    by (rule sorted_wrt_mono_rel [rotated]) auto
  from res d mem total uniq srt ties show ?thesis by blast
qed

theorem grouped_partition_witness:
  "category_key r1 \<notin> set Object_prototype_keys
   \<and> category_key r2 \<notin> set Object_prototype_keys
   \<and> category_key r3 \<notin> set Object_prototype_keys
   \<and> grouped example_catalog = Inr [(''coding'', [r1, r2]), (''writing'', [r3])]
   \<and> (\<exists>groups. grouped example_catalog = Inr groups
         \<and> distinct (map fst groups)
         \<and> sum_list (map (length \<circ> snd) groups) = length example_catalog
         \<and> (\<forall>uc \<in> set example_catalog. \<exists>!g. g \<in> set groups \<and> uc \<in> set (snd g))
         \<and> sorted_wrt (\<lambda>a b. length (snd a) \<ge> length (snd b)) groups)"
proof -
  from grouped_partition [OF example_no_inherited_key]
  have "\<exists>groups. grouped example_catalog = Inr groups
         \<and> distinct (map fst groups)
         \<and> sum_list (map (length \<circ> snd) groups) = length example_catalog
         \<and> (\<forall>uc \<in> set example_catalog. \<exists>!g. g \<in> set groups \<and> uc \<in> set (snd g))
         \<and> sorted_wrt (\<lambda>a b. length (snd a) \<ge> length (snd b)) groups"
    by blast
  moreover have "category_key r1 \<notin> set Object_prototype_keys
       \<and> category_key r2 \<notin> set Object_prototype_keys
       \<and> category_key r3 \<notin> set Object_prototype_keys"
    using example_no_inherited_key by (simp add: example_catalog_def)
  ultimately show ?thesis using grouped_example by blast
qed

subsection \<open>Records without a category\<close>

text \<open>
  Claim C10 says that a record whose category is empty is never dropped: it lands in
  the group \<open>other\<close>, whatever else is in the evaluated set. The code does this only
  while no record's category key names a property inherited from \<open>Object.prototype\<close>;
  then the record is a member of the group keyed \<open>other\<close>. For the evaluated set of an
  uncategorised record and a record of category \<open>constructor\<close>, the read
  \<open>groups["constructor"]\<close> yields the inherited function, the array is not created, the
  call of \<open>push\<close> throws a \<open>TypeError\<close>, and no group at all is produced.
\<close>

theorem other_group_unless_inherited_key:
  "grouped inherited_key_records = Inl TypeError
   \<and> ((\<forall>r \<in> set records. category_key r \<notin> set Object_prototype_keys)
        \<and> uc \<in> set records \<and> category uc = []
      \<longrightarrow> (\<exists>groups. grouped records = Inr groups
            \<and> (''other'', filter (\<lambda>r. category_key r = ''other'') records) \<in> set groups
            \<and> uc \<in> set (filter (\<lambda>r. category_key r = ''other'') records)))"
proof (intro conjI impI, goal_cases)
  case 1
  show ?case by (rule inherited_key_throws)
next
  case 2
  then have key: "category_key uc = ''other''" and uc: "uc \<in> set records"
    by (simp_all add: category_key_def)
  from 2 have "grouped records
       = Inr (sort_key (\<lambda>e. - int (length (snd e))) (Object_entries (groups_of records)))"
    by (intro grouped_closed_form) simp
  moreover have "(''other'', filter (\<lambda>r. category_key r = ''other'') records)
      \<in> set (sort_key (\<lambda>e. - int (length (snd e))) (Object_entries (groups_of records)))"
  proof -
    have "''other'' \<in> category_key ` set records"
      using key uc by (metis imageI)
    then show ?thesis
      by (simp add: set_Object_entries in_groups_of)
  qed
  moreover have "uc \<in> set (filter (\<lambda>r. category_key r = ''other'') records)"
    using key uc by simp
  ultimately show ?case by blast
qed

theorem other_group_unless_inherited_key_witness:
  "category_key untagged \<notin> set Object_prototype_keys
   \<and> category_key r1 \<notin> set Object_prototype_keys
   \<and> untagged \<in> set [untagged, r1] \<and> category untagged = []
   \<and> (\<exists>groups. grouped [untagged, r1] = Inr groups
         \<and> (''other'', filter (\<lambda>r. category_key r = ''other'') [untagged, r1]) \<in> set groups
         \<and> untagged \<in> set (filter (\<lambda>r. category_key r = ''other'') [untagged, r1]))"
proof -
  have h: "category_key untagged \<notin> set Object_prototype_keys
           \<and> category_key r1 \<notin> set Object_prototype_keys
           \<and> untagged \<in> set [untagged, r1] \<and> category untagged = []"
    by (simp add: untagged_def r1_def example_record_def category_key_def
          Object_prototype_keys_def)
  then have "(\<forall>r \<in> set [untagged, r1]. category_key r \<notin> set Object_prototype_keys)
           \<and> untagged \<in> set [untagged, r1] \<and> category untagged = []"
    by simp
  with other_group_unless_inherited_key [of "[untagged, r1]" untagged] h
  show ?thesis by blast
qed

end
